theory Spec2Isabelle
  imports Main "HOL-Library.Multiset" "HOL-Library.Signed_Division"
begin

section \<open>Package srt: slices\<close>

text \<open>
  A Go slice \<open>[]T\<close> is modelled by the list of its elements.  Reading or writing an
  index outside \<open>0 .. len-1\<close> panics in Go; the panic is the value \<open>None\<close>.
\<close>

definition slice_get :: "'a list \<Rightarrow> nat \<Rightarrow> 'a option" where
  "slice_get xs i = (if i < length xs then Some (xs ! i) else None)"

definition slice_set :: "'a list \<Rightarrow> nat \<Rightarrow> 'a \<Rightarrow> 'a list option" where
  "slice_set xs i v = (if i < length xs then Some (xs[i := v]) else None)"

section \<open>SortBy\<close>

text \<open>
  \<open>SortBy\<close> hands the slice to \<open>sort.Slice\<close> of the Go standard library, with the
  comparator applied to the elements at the two indices.  The library routine is not
  part of the package, so it is the parameter \<open>ssort\<close>: the contents of the slice after
  the library call, as a function of the comparator and the contents before.
\<close>

definition SortBy ::
  "(('a \<Rightarrow> 'a \<Rightarrow> bool) \<Rightarrow> 'a list \<Rightarrow> 'a list) \<Rightarrow> 'a list \<Rightarrow> ('a \<Rightarrow> 'a \<Rightarrow> bool) \<Rightarrow> 'a list" where
  "SortBy ssort data lessf = ssort lessf data"

section \<open>merge\<close>

text \<open>
  One pass through the body of the first loop of \<open>merge\<close>:
  \<^verbatim>\<open>if less(temp[i], temp[j]) { data[k] = temp[i]; i++ } else { data[k] = temp[j]; j++ }; k++\<close>
\<close>

definition merge_step ::
  "('a \<Rightarrow> 'a \<Rightarrow> bool) \<Rightarrow> 'a list \<Rightarrow> 'a list \<Rightarrow> nat \<Rightarrow> nat \<Rightarrow> nat
    \<Rightarrow> ('a list \<times> nat \<times> nat \<times> nat) option" where
  "merge_step lessf temp data i j k =
     (case slice_get temp i of
        None \<Rightarrow> None
      | Some l \<Rightarrow>
          (case slice_get temp j of
             None \<Rightarrow> None
           | Some r \<Rightarrow>
               if lessf l r
               then (case slice_set data k l of
                       None \<Rightarrow> None
                     | Some d \<Rightarrow> Some (d, i + 1, j, k + 1))
               else (case slice_set data k r of
                       None \<Rightarrow> None
                     | Some d \<Rightarrow> Some (d, i, j + 1, k + 1))))"

text \<open>The first loop: \<^verbatim>\<open>for i < mid && j < len(data) { ... }\<close>.\<close>

function merge_loop ::
  "('a \<Rightarrow> 'a \<Rightarrow> bool) \<Rightarrow> 'a list \<Rightarrow> nat \<Rightarrow> 'a list \<Rightarrow> nat \<Rightarrow> nat \<Rightarrow> nat
    \<Rightarrow> ('a list \<times> nat \<times> nat \<times> nat) option" where
  "merge_loop lessf temp mid data i j k =
     (if i < mid \<and> j < length data
      then (case merge_step lessf temp data i j k of
              None \<Rightarrow> None
            | Some (d, i', j', k') \<Rightarrow> merge_loop lessf temp mid d i' j' k')
      else Some (data, i, j, k))"
  by pat_completeness auto
termination
proof (relation "measure (\<lambda>(lessf, temp, mid, data, i, j, k). (mid - i) + (length data - j))")
  show "wf (measure (\<lambda>(lessf, temp, mid, data, i, j, k). (mid - i) + (length data - j)))"
    by simp
next
  fix lessf :: "'a \<Rightarrow> 'a \<Rightarrow> bool" and temp data :: "'a list" and mid i j k :: nat
    and x2 :: "'a list \<times> nat \<times> nat \<times> nat" and d :: "'a list"
    and y :: "nat \<times> nat \<times> nat" and i' :: nat and ya :: "nat \<times> nat" and j' k' :: nat
  assume guard: "i < mid \<and> j < length data"
    and st: "merge_step lessf temp data i j k = Some x2"
    and "(d, y) = x2" "(i', ya) = y" "(j', k') = ya"
  then have "merge_step lessf temp data i j k = Some (d, i', j', k')"
    by simp
  then have "length d = length data \<and> i' + j' = Suc (i + j) \<and> i \<le> i' \<and> j \<le> j'"
    by (auto simp: merge_step_def slice_get_def slice_set_def split: if_splits option.splits)
  with guard
  show "((lessf, temp, mid, d, i', j', k'), (lessf, temp, mid, data, i, j, k))
        \<in> measure (\<lambda>(lessf, temp, mid, data, i, j, k). (mid - i) + (length data - j))"
    by auto
qed

declare merge_loop.simps [simp del]

text \<open>The second loop: \<^verbatim>\<open>for i < mid { data[k] = temp[i]; i++; k++ }\<close>.\<close>

function copy_left ::
  "'a list \<Rightarrow> nat \<Rightarrow> 'a list \<Rightarrow> nat \<Rightarrow> nat \<Rightarrow> ('a list \<times> nat \<times> nat) option" where
  "copy_left temp mid data i k =
     (if i < mid
      then (case slice_get temp i of
              None \<Rightarrow> None
            | Some v \<Rightarrow>
                (case slice_set data k v of
                   None \<Rightarrow> None
                 | Some d \<Rightarrow> copy_left temp mid d (i + 1) (k + 1)))
      else Some (data, i, k))"
  by pat_completeness auto
termination
  by (relation "measure (\<lambda>(temp, mid, data, i, k). mid - i)") auto

declare copy_left.simps [simp del]

text \<open>
  \<open>merge\<close>: \<open>temp\<close> is a fresh copy of \<open>data\<close>; the cursors start at \<open>0\<close>, \<open>mid\<close>, \<open>0\<close>.
  The index \<open>mid\<close> is a length in every call the package makes, so it is a \<open>nat\<close>.
\<close>

definition merge :: "'a list \<Rightarrow> nat \<Rightarrow> ('a \<Rightarrow> 'a \<Rightarrow> bool) \<Rightarrow> 'a list option" where
  "merge data mid lessf =
     (let temp = data in
      case merge_loop lessf temp mid data 0 mid 0 of
        None \<Rightarrow> None
      | Some (d, i, j, k) \<Rightarrow>
          (case copy_left temp mid d i k of
             None \<Rightarrow> None
           | Some (d', i', k') \<Rightarrow> Some d'))"

section \<open>ParallelSort\<close>

text \<open>
  The left half \<open>data[:mid]\<close> is sorted by a goroutine and the right half \<open>data[mid:]\<close>
  by the caller; the caller waits on the \<open>WaitGroup\<close> before merging.  The two calls
  work on sub-slices that share no index, so the model runs them one after the other
  and the contents of \<open>data\<close> before the merge are the two results side by side.
  \<open>parallelism\<close> is a Go \<open>int\<close>; \<open>sdiv\<close> is Go's division, which truncates towards zero.
\<close>

function ParallelSort ::
  "(('a \<Rightarrow> 'a \<Rightarrow> bool) \<Rightarrow> 'a list \<Rightarrow> 'a list) \<Rightarrow> 'a list \<Rightarrow> ('a \<Rightarrow> 'a \<Rightarrow> bool) \<Rightarrow> int
    \<Rightarrow> 'a list option" where
  "ParallelSort ssort data lessf parallelism =
     (if length data < 2 then Some data
      else if parallelism \<le> 1 \<or> length data < 1000 then Some (SortBy ssort data lessf)
      else
        (let mid = length data div 2 in
         case ParallelSort ssort (take mid data) lessf (parallelism sdiv 2) of
           None \<Rightarrow> None
         | Some left \<Rightarrow>
             (case ParallelSort ssort (drop mid data) lessf (parallelism sdiv 2) of
                None \<Rightarrow> None
              | Some right \<Rightarrow> merge (left @ right) mid lessf)))"
  by pat_completeness auto
termination
  by (relation "measure (\<lambda>(ssort, data, lessf, parallelism). length data)") auto

declare ParallelSort.simps [simp del]

section \<open>IsSorted\<close>

text \<open>
  \<^verbatim>\<open>for i := 0; i < len(data)-1; i++ { if less(data[i+1], data[i]) { return false } }; return true\<close>
  The subtraction is on Go's signed \<open>int\<close>, so an empty slice gives the bound \<open>-1\<close>.
  Both reads are inside the slice by the loop guard.
\<close>

function IsSorted_loop :: "'a list \<Rightarrow> ('a \<Rightarrow> 'a \<Rightarrow> bool) \<Rightarrow> nat \<Rightarrow> bool" where
  "IsSorted_loop data lessf i =
     (if int i < int (length data) - 1
      then (if lessf (data ! (i + 1)) (data ! i) then False
            else IsSorted_loop data lessf (i + 1))
      else True)"
  by pat_completeness auto
termination
  by (relation "measure (\<lambda>(data, lessf, i). length data - i)") auto

declare IsSorted_loop.simps [simp del]

definition IsSorted :: "'a list \<Rightarrow> ('a \<Rightarrow> 'a \<Rightarrow> bool) \<Rightarrow> bool" where
  "IsSorted data lessf = IsSorted_loop data lessf 0"

section \<open>Reference merge\<close>

text \<open>
  The reference merge of the specification: the same two-cursor loop, followed by the
  copy of what is left of the low half and then by the copy of what is left of the
  high half, \<^verbatim>\<open>for j < len(data) { data[k] = temp[j]; j++; k++ }\<close>, which \<open>merge\<close> omits.
\<close>

function copy_right ::
  "'a list \<Rightarrow> 'a list \<Rightarrow> nat \<Rightarrow> nat \<Rightarrow> ('a list \<times> nat \<times> nat) option" where
  "copy_right temp data j k =
     (if j < length data
      then (case slice_get temp j of
              None \<Rightarrow> None
            | Some v \<Rightarrow>
                (case slice_set data k v of
                   None \<Rightarrow> None
                 | Some d \<Rightarrow> copy_right temp d (j + 1) (k + 1)))
      else Some (data, j, k))"
  by pat_completeness auto
termination
proof (relation "measure (\<lambda>(temp, data, j, k). length data - j)")
  show "wf (measure (\<lambda>(temp, data, j, k). length data - j))"
    by simp
next
  fix temp data d :: "'a list" and j k :: nat and v :: 'a
  assume "j < length data" and "slice_set data k v = Some d"
  then show "((temp, d, j + 1, k + 1), (temp, data, j, k))
        \<in> measure (\<lambda>(temp, data, j, k). length data - j)"
    by (auto simp: slice_set_def split: if_splits)
qed

declare copy_right.simps [simp del]

definition merge_ref :: "'a list \<Rightarrow> nat \<Rightarrow> ('a \<Rightarrow> 'a \<Rightarrow> bool) \<Rightarrow> 'a list option" where
  "merge_ref data mid lessf =
     (let temp = data in
      case merge_loop lessf temp mid data 0 mid 0 of
        None \<Rightarrow> None
      | Some (d, i, j, k) \<Rightarrow>
          (case copy_left temp mid d i k of
             None \<Rightarrow> None
           | Some (d', i', k') \<Rightarrow>
               (case copy_right temp d' j k' of
                  None \<Rightarrow> None
                | Some (d'', j', k'') \<Rightarrow> Some d'')))"

section \<open>Auxiliary notions\<close>

text \<open>The list that merging two lists front to front yields, with the comparison of \<open>merge\<close>.\<close>

fun merge_lists :: "('a \<Rightarrow> 'a \<Rightarrow> bool) \<Rightarrow> 'a list \<Rightarrow> 'a list \<Rightarrow> 'a list" where
  "merge_lists lessf [] rs = rs"
| "merge_lists lessf ls [] = ls"
| "merge_lists lessf (l # ls) (r # rs) =
     (if lessf l r then l # merge_lists lessf ls (r # rs)
      else r # merge_lists lessf (l # ls) rs)"

text \<open>
  A consistent comparator: a strict weak ordering, that is, irreflexive and transitive,
  with a transitive relation "neither is less than the other".
\<close>

definition strict_weak_order :: "('a \<Rightarrow> 'a \<Rightarrow> bool) \<Rightarrow> bool" where
  "strict_weak_order lessf \<longleftrightarrow>
     (\<forall>a. \<not> lessf a a) \<and>
     (\<forall>a b c. lessf a b \<and> lessf b c \<longrightarrow> lessf a c) \<and>
     (\<forall>a b c. (\<not> lessf a b \<and> \<not> lessf b a) \<and> (\<not> lessf b c \<and> \<not> lessf c b)
        \<longrightarrow> \<not> lessf a c \<and> \<not> lessf c a)"

text \<open>
  The depth of nested splits (goroutine launches) that a call of \<open>ParallelSort\<close> reaches,
  by the same case distinction as \<open>ParallelSort\<close> itself.
\<close>

function ParallelSort_depth :: "'a list \<Rightarrow> int \<Rightarrow> nat" where
  "ParallelSort_depth data parallelism =
     (if length data < 2 then 0
      else if parallelism \<le> 1 \<or> length data < 1000 then 0
      else
        (let mid = length data div 2 in
         1 + max (ParallelSort_depth (take mid data) (parallelism sdiv 2))
                 (ParallelSort_depth (drop mid data) (parallelism sdiv 2))))"
  by pat_completeness auto
termination
  by (relation "measure (\<lambda>(data, parallelism). length data)") auto

declare ParallelSort_depth.simps [simp del]

text \<open>
  A sequential sort to put in the place of the library routine in concrete runs:
  insertion sort, which moves an element to the left only past elements that it is
  less than, so it keeps the order of tied elements and leaves a sorted slice as it is.
\<close>

fun insert_sorted :: "('a \<Rightarrow> 'a \<Rightarrow> bool) \<Rightarrow> 'a \<Rightarrow> 'a list \<Rightarrow> 'a list" where
  "insert_sorted lessf x [] = [x]"
| "insert_sorted lessf x (y # ys) =
     (if lessf y x then y # insert_sorted lessf x ys else x # y # ys)"

fun insertionSort :: "('a \<Rightarrow> 'a \<Rightarrow> bool) \<Rightarrow> 'a list \<Rightarrow> 'a list" where
  "insertionSort lessf [] = []"
| "insertionSort lessf (x # xs) = insert_sorted lessf x (insertionSort lessf xs)"

text \<open>Records \<open>(key, id)\<close> compared by key only, and a slice of 1000 records with one key.\<close>

definition less_key :: "nat \<times> nat \<Rightarrow> nat \<times> nat \<Rightarrow> bool" where
  "less_key a b = (fst a < fst b)"

definition same_key_1000 :: "(nat \<times> nat) list" where
  "same_key_1000 = map (Pair 0) [0..<1000]"

text \<open>A comparator that is not consistent: everything is less than everything.\<close>

definition less_always :: "nat \<Rightarrow> nat \<Rightarrow> bool" where
  "less_always a b = True"

definition less_nat :: "nat \<Rightarrow> nat \<Rightarrow> bool" where
  "less_nat a b = (a < b)"

text \<open>
  The invariant of the first loop of \<open>merge\<close>: the cursors are inside their halves, the
  output index is the number of elements taken so far, and everything from the output
  index on still holds what \<open>temp\<close> holds.
\<close>

definition merge_inv :: "'a list \<Rightarrow> nat \<Rightarrow> 'a list \<Rightarrow> nat \<Rightarrow> nat \<Rightarrow> nat \<Rightarrow> bool" where
  "merge_inv temp mid data i j k \<longleftrightarrow>
     mid \<le> length temp \<and> length data = length temp \<and> i \<le> mid \<and> mid \<le> j \<and> j \<le> length temp \<and>
     k + mid = i + j \<and> drop k data = drop k temp"

section \<open>Properties of the slice operations and of one merge step\<close>

lemma merge_step_progress:
  assumes "merge_step lessf temp data i j k = Some (d, i', j', k')"
  shows "length d = length data \<and> i' + j' = Suc (i + j) \<and> i \<le> i' \<and> j \<le> j' \<and> k' = Suc k"
  using assms
  by (auto simp: merge_step_def slice_get_def slice_set_def split: if_splits option.splits)



lemma merge_lists_Nil2: "merge_lists lessf ls [] = ls"
  by (cases ls) simp_all

lemma take_Suc_update: "k < length data \<Longrightarrow> take (Suc k) (data[k := v]) = take k data @ [v]"
  by (simp add: take_Suc_conv_app_nth)

lemma copy_left_eq:
  "i \<le> mid \<Longrightarrow> mid \<le> length temp \<Longrightarrow> k + (mid - i) \<le> length data \<Longrightarrow>
   copy_left temp mid data i k =
     Some (take k data @ take (mid - i) (drop i temp) @ drop (k + (mid - i)) data, mid, k + (mid - i))"
proof (induction temp mid data i k rule: copy_left.induct)
  case (1 temp mid data i k)
  show ?case
  proof (cases "i < mid")
    case False
    with "1.prems" have "i = mid" by simp
    then show ?thesis by (simp add: copy_left.simps[of temp mid data mid k])
  next
    case True
    with "1.prems" have it: "i < length temp" and kd: "k < length data" by auto
    let ?d = "data[k := temp ! i]"
    have step: "copy_left temp mid data i k = copy_left temp mid ?d (i + 1) (k + 1)"
      using True it kd by (subst copy_left.simps) (simp add: slice_get_def slice_set_def)
    have ih: "copy_left temp mid ?d (i + 1) (k + 1) =
      Some (take (k + 1) ?d @ take (mid - (i + 1)) (drop (i + 1) temp) @ drop (k + 1 + (mid - (i + 1))) ?d,
            mid, k + 1 + (mid - (i + 1)))"
      using "1.IH"[of "temp ! i" ?d] True it kd "1.prems"
      by (simp add: slice_get_def slice_set_def)
    have a: "take (k + 1) ?d = take k data @ [temp ! i]"
      using kd by (simp add: take_Suc_update)
    have b: "take (mid - i) (drop i temp) = temp ! i # take (mid - (i + 1)) (drop (i + 1) temp)"
      using True it by (metis Cons_nth_drop_Suc Suc_diff_Suc Suc_eq_plus1 take_Suc_Cons)
    have c: "k + 1 + (mid - (i + 1)) = k + (mid - i)"
      using True by simp
    have d: "drop (k + (mid - i)) ?d = drop (k + (mid - i)) data"
      using True by simp
    show ?thesis
      unfolding step ih a b c d by simp
  qed
qed


lemma merge_step_inv:
  assumes inv: "merge_inv temp mid data i j k" and guard: "i < mid \<and> j < length data"
  shows "\<exists>d i' j' k'. merge_step lessf temp data i j k = Some (d, i', j', k') \<and>
           merge_inv temp mid d i' j' k' \<and>
           take k' d @ merge_lists lessf (take (mid - i') (drop i' temp)) (drop j' temp)
             = take k data @ merge_lists lessf (take (mid - i) (drop i temp)) (drop j temp)"
proof -
  from inv guard have it: "i < length temp" and jt: "j < length temp" and kd: "k < length data"
    and im: "i < mid"
    by (auto simp: merge_inv_def)
  have L: "take (mid - i) (drop i temp) = temp ! i # take (mid - Suc i) (drop (Suc i) temp)"
    using im it by (metis Cons_nth_drop_Suc Suc_diff_Suc take_Suc_Cons)
  have R: "drop j temp = temp ! j # drop (Suc j) temp"
    using jt by (simp add: Cons_nth_drop_Suc)
  have D: "drop (Suc k) (data[k := v]) = drop (Suc k) temp" for v
    using inv by (simp add: merge_inv_def) (metis drop_Suc tl_drop)
  show ?thesis
  proof (cases "lessf (temp ! i) (temp ! j)")
    case True
    then have "merge_step lessf temp data i j k = Some (data[k := temp ! i], Suc i, j, Suc k)"
      using it jt kd by (simp add: merge_step_def slice_get_def slice_set_def)
    moreover have "merge_inv temp mid (data[k := temp ! i]) (Suc i) j (Suc k)"
      using inv im D by (simp add: merge_inv_def)
    moreover have "take (Suc k) (data[k := temp ! i])
        @ merge_lists lessf (take (mid - Suc i) (drop (Suc i) temp)) (drop j temp)
      = take k data @ merge_lists lessf (take (mid - i) (drop i temp)) (drop j temp)"
      using True kd by (simp add: L R take_Suc_update)
    ultimately show ?thesis by blast
  next
    case False
    then have "merge_step lessf temp data i j k = Some (data[k := temp ! j], i, Suc j, Suc k)"
      using it jt kd by (simp add: merge_step_def slice_get_def slice_set_def)
    moreover have "merge_inv temp mid (data[k := temp ! j]) i (Suc j) (Suc k)"
      using inv jt D by (simp add: merge_inv_def)
    moreover have "take (Suc k) (data[k := temp ! j])
        @ merge_lists lessf (take (mid - i) (drop i temp)) (drop (Suc j) temp)
      = take k data @ merge_lists lessf (take (mid - i) (drop i temp)) (drop j temp)"
      using False kd by (simp add: L R take_Suc_update)
    ultimately show ?thesis by blast
  qed
qed

lemma merge_loop_spec:
  assumes "merge_inv temp mid data i j k"
  shows "\<exists>d i' j' k'. merge_loop lessf temp mid data i j k = Some (d, i', j', k') \<and>
           merge_inv temp mid d i' j' k' \<and> (i' = mid \<or> j' = length temp) \<and>
           take k' d @ merge_lists lessf (take (mid - i') (drop i' temp)) (drop j' temp)
             = take k data @ merge_lists lessf (take (mid - i) (drop i temp)) (drop j temp)"
  using assms
proof (induction lessf temp mid data i j k rule: merge_loop.induct)
  case (1 lessf temp mid data i j k)
  show ?case
  proof (cases "i < mid \<and> j < length data")
    case False
    then have "merge_loop lessf temp mid data i j k = Some (data, i, j, k)"
      by (subst merge_loop.simps) auto
    moreover from False "1.prems" have "i = mid \<or> j = length temp"
      by (auto simp: merge_inv_def)
    ultimately show ?thesis using "1.prems" by blast
  next
    case True
    from merge_step_inv[OF "1.prems" True, of lessf]
    obtain d1 i1 j1 k1 where
      st: "merge_step lessf temp data i j k = Some (d1, i1, j1, k1)"
      and inv1: "merge_inv temp mid d1 i1 j1 k1"
      and eq1: "take k1 d1 @ merge_lists lessf (take (mid - i1) (drop i1 temp)) (drop j1 temp)
             = take k data @ merge_lists lessf (take (mid - i) (drop i temp)) (drop j temp)"
      by blast
    have unf: "merge_loop lessf temp mid data i j k = merge_loop lessf temp mid d1 i1 j1 k1"
      using True st by (subst merge_loop.simps) simp
    from "1.IH"[OF True st refl refl refl inv1]
    show ?thesis unfolding unf eq1 .
  qed
qed

lemma merge_eq:
  assumes "mid \<le> length data"
  shows "merge data mid lessf = Some (merge_lists lessf (take mid data) (drop mid data))"
proof -
  have "merge_inv data mid data 0 mid 0"
    using assms by (simp add: merge_inv_def)
  from merge_loop_spec[OF this, of lessf]
  obtain d i j k where
    lp: "merge_loop lessf data mid data 0 mid 0 = Some (d, i, j, k)"
    and inv: "merge_inv data mid d i j k" and ex: "i = mid \<or> j = length data"
    and eq: "take k d @ merge_lists lessf (take (mid - i) (drop i data)) (drop j data)
             = merge_lists lessf (take mid data) (drop mid data)"
    by auto
  have kj: "k + (mid - i) = j" and kle: "k \<le> j"
    using inv by (auto simp: merge_inv_def)
  have "drop (j - k) (drop k d) = drop (j - k) (drop k data)"
    using inv by (simp add: merge_inv_def)
  then have dj: "drop j d = drop j data"
    using kle by simp
  have cl: "copy_left data mid d i k =
      Some (take k d @ take (mid - i) (drop i data) @ drop j d, mid, j)"
    using copy_left_eq[of i mid data k d] inv kj by (simp add: merge_inv_def)
  have "take (mid - i) (drop i data) @ drop j data
      = merge_lists lessf (take (mid - i) (drop i data)) (drop j data)"
    using ex inv by (auto simp: merge_inv_def merge_lists_Nil2)
  then show ?thesis
    using lp cl dj eq by (simp add: merge_def)
qed


lemma copy_right_id:
  "k = j \<Longrightarrow> length data = length temp \<Longrightarrow> drop j data = drop j temp \<Longrightarrow>
   \<exists>j' k'. copy_right temp data j k = Some (data, j', k')"
proof (induction temp data j k rule: copy_right.induct)
  case (1 temp data j k)
  show ?case
  proof (cases "j < length data")
    case False
    then show ?thesis by (subst copy_right.simps) simp
  next
    case True
    have jt: "j < length temp"
      using True "1.prems" by simp
    have same: "data ! j = temp ! j"
      using hd_drop_conv_nth[OF True] hd_drop_conv_nth[OF jt] "1.prems"(3) by simp
    then have upd: "data[j := temp ! j] = data"
      by (metis list_update_id)
    have get: "slice_get temp j = Some (temp ! j)"
      using True "1.prems" by (simp add: slice_get_def)
    have set: "slice_set data k (temp ! j) = Some data"
      using True "1.prems" upd by (simp add: slice_set_def)
    have unf: "copy_right temp data j k = copy_right temp data (j + 1) (k + 1)"
      using True get set by (subst copy_right.simps) simp
    have "drop (j + 1) data = drop (j + 1) temp"
      using "1.prems" by (metis Suc_eq_plus1 drop_Suc tl_drop)
    from "1.IH"[OF True get set _ "1.prems"(2) this] "1.prems"(1)
    show ?thesis unfolding unf by simp
  qed
qed

lemma merge_ref_eq:
  assumes "mid \<le> length data"
  shows "merge_ref data mid lessf = Some (merge_lists lessf (take mid data) (drop mid data))"
proof -
  have "merge_inv data mid data 0 mid 0"
    using assms by (simp add: merge_inv_def)
  from merge_loop_spec[OF this, of lessf]
  obtain d i j k where
    lp: "merge_loop lessf data mid data 0 mid 0 = Some (d, i, j, k)"
    and inv: "merge_inv data mid d i j k" and ex: "i = mid \<or> j = length data"
    and eq: "take k d @ merge_lists lessf (take (mid - i) (drop i data)) (drop j data)
             = merge_lists lessf (take mid data) (drop mid data)"
    by auto
  have kj: "k + (mid - i) = j" and kle: "k \<le> j"
    using inv by (auto simp: merge_inv_def)
  have "drop (j - k) (drop k d) = drop (j - k) (drop k data)"
    using inv by (simp add: merge_inv_def)
  then have dj: "drop j d = drop j data"
    using kle by simp
  let ?d' = "take k d @ take (mid - i) (drop i data) @ drop j data"
  have cl: "copy_left data mid d i k = Some (?d', mid, j)"
    using copy_left_eq[of i mid data k d] inv kj dj by (simp add: merge_inv_def)
  have res: "?d' = merge_lists lessf (take mid data) (drop mid data)"
    using ex inv eq by (auto simp: merge_inv_def merge_lists_Nil2)
  have len: "length ?d' = length data"
    using inv kj by (auto simp: merge_inv_def)
  have "drop j ?d' = drop j data"
    using inv kj by (auto simp: merge_inv_def)
  from copy_right_id[OF refl len this]
  obtain j' k' where "copy_right data ?d' j j = Some (?d', j', k')"
    by blast
  then show ?thesis
    using lp cl res by (simp add: merge_ref_def)
qed

subsection \<open>Consistent comparators\<close>

lemma swo_irrefl: "strict_weak_order lessf \<Longrightarrow> \<not> lessf a a"
  by (simp add: strict_weak_order_def)

lemma swo_trans: "strict_weak_order lessf \<Longrightarrow> lessf a b \<Longrightarrow> lessf b c \<Longrightarrow> lessf a c"
  unfolding strict_weak_order_def by blast

lemma swo_asym: "strict_weak_order lessf \<Longrightarrow> lessf a b \<Longrightarrow> \<not> lessf b a"
  using swo_irrefl swo_trans by metis

lemma swo_tie_trans:
  "strict_weak_order lessf \<Longrightarrow> \<not> lessf a b \<Longrightarrow> \<not> lessf b a \<Longrightarrow> \<not> lessf b c \<Longrightarrow> \<not> lessf c b
    \<Longrightarrow> \<not> lessf a c"
  unfolding strict_weak_order_def by blast

lemma swo_negtrans:
  assumes swo: "strict_weak_order lessf" and ab: "\<not> lessf a b" and bc: "\<not> lessf b c"
  shows "\<not> lessf a c"
proof
  assume ac: "lessf a c"
  have nba: "\<not> lessf b a"
    using swo_trans[OF swo _ ac] bc by blast
  have ncb: "\<not> lessf c b"
    using swo_trans[OF swo ac] ab by blast
  from swo_tie_trans[OF swo ab nba bc ncb] ac show False by simp
qed

lemma swo_transp: "strict_weak_order lessf \<Longrightarrow> transp (\<lambda>a b. \<not> lessf b a)"
  by (rule transpI) (blast dest: swo_negtrans)

subsection \<open>IsSorted\<close>

lemma IsSorted_loop_iff:
  "IsSorted_loop data lessf i \<longleftrightarrow>
     (\<forall>n. i \<le> n \<and> Suc n < length data \<longrightarrow> \<not> lessf (data ! Suc n) (data ! n))"
proof (induction data lessf i rule: IsSorted_loop.induct)
  case (1 data lessf i)
  show ?case
  proof (cases "Suc i < length data")
    case False
    then show ?thesis by (subst IsSorted_loop.simps) auto
  next
    case True
    show ?thesis
    proof (cases "lessf (data ! Suc i) (data ! i)")
      case bad: True
      then have "\<not> IsSorted_loop data lessf i"
        using True by (subst IsSorted_loop.simps) auto
      with bad True show ?thesis by blast
    next
      case ok: False
      have g: "int i < int (length data) - 1" using True by simp
      have ni: "\<not> lessf (data ! (i + 1)) (data ! i)" using ok by simp
      have "IsSorted_loop data lessf i = IsSorted_loop data lessf (i + 1)"
        using True ok by (subst IsSorted_loop.simps) auto
      also have "\<dots> \<longleftrightarrow> (\<forall>n. i + 1 \<le> n \<and> Suc n < length data \<longrightarrow> \<not> lessf (data ! Suc n) (data ! n))"
        using "1.IH"[OF g ni] .
      also have "\<dots> \<longleftrightarrow> (\<forall>n. i \<le> n \<and> Suc n < length data \<longrightarrow> \<not> lessf (data ! Suc n) (data ! n))"
      proof (intro iffI allI impI)
        fix n
        assume h: "\<forall>n. i + 1 \<le> n \<and> Suc n < length data \<longrightarrow> \<not> lessf (data ! Suc n) (data ! n)"
          and n: "i \<le> n \<and> Suc n < length data"
        show "\<not> lessf (data ! Suc n) (data ! n)"
        proof (cases "n = i")
          case True
          with ok show ?thesis by simp
        next
          case False
          with n have "i + 1 \<le> n \<and> Suc n < length data" by simp
          with h show ?thesis by blast
        qed
      next
        fix n
        assume h: "\<forall>n. i \<le> n \<and> Suc n < length data \<longrightarrow> \<not> lessf (data ! Suc n) (data ! n)"
          and n: "i + 1 \<le> n \<and> Suc n < length data"
        then have "i \<le> n \<and> Suc n < length data" by simp
        with h show "\<not> lessf (data ! Suc n) (data ! n)" by blast
      qed
      finally show ?thesis .
    qed
  qed
qed

lemma IsSorted_adjacent:
  "IsSorted data lessf \<longleftrightarrow> (\<forall>n. Suc n < length data \<longrightarrow> \<not> lessf (data ! Suc n) (data ! n))"
  by (simp add: IsSorted_def IsSorted_loop_iff)

lemma IsSorted_sorted_wrt:
  "strict_weak_order lessf \<Longrightarrow> IsSorted data lessf \<longleftrightarrow> sorted_wrt (\<lambda>a b. \<not> lessf b a) data"
  by (simp add: IsSorted_adjacent sorted_wrt_iff_nth_Suc_transp[OF swo_transp])

subsection \<open>Merging two lists\<close>

lemma mset_merge_lists: "mset (merge_lists lessf ls rs) = mset ls + mset rs"
  by (induction lessf ls rs rule: merge_lists.induct) auto

lemma set_merge_lists: "set (merge_lists lessf ls rs) = set ls \<union> set rs"
  by (induction lessf ls rs rule: merge_lists.induct) auto

lemma length_merge_lists: "length (merge_lists lessf ls rs) = length ls + length rs"
  by (induction lessf ls rs rule: merge_lists.induct) auto

lemma sorted_merge_lists:
  "strict_weak_order lessf \<Longrightarrow> sorted_wrt (\<lambda>a b. \<not> lessf b a) ls
    \<Longrightarrow> sorted_wrt (\<lambda>a b. \<not> lessf b a) rs
    \<Longrightarrow> sorted_wrt (\<lambda>a b. \<not> lessf b a) (merge_lists lessf ls rs)"
proof (induction lessf ls rs rule: merge_lists.induct)
  case (3 lessf l ls r rs)
  show ?case
  proof (cases "lessf l r")
    case True
    have "\<not> lessf z l" if "z \<in> set (r # rs)" for z
    proof -
      have "\<not> lessf r l" using swo_asym[OF "3.prems"(1) True] .
      moreover have "\<not> lessf z r" if "z \<in> set rs" using that "3.prems"(3) by auto
      ultimately show ?thesis
        using that swo_negtrans[OF "3.prems"(1), of z r l] by auto
    qed
    then show ?thesis
      using True "3.IH"(1) "3.prems" by (auto simp: set_merge_lists)
  next
    case False
    have "\<not> lessf z r" if "z \<in> set (l # ls)" for z
    proof -
      have "\<not> lessf z l" if "z \<in> set ls" using that "3.prems"(2) by auto
      then show ?thesis
        using that False swo_negtrans[OF "3.prems"(1), of z l r] by auto
    qed
    then show ?thesis
      using False "3.IH"(2) "3.prems" by (auto simp: set_merge_lists)
  qed
qed simp_all

lemma merge_lists_right_first:
  "\<forall>x \<in> set ls. \<forall>y \<in> set rs. \<not> lessf x y \<Longrightarrow> merge_lists lessf ls rs = rs @ ls"
proof (induction lessf ls rs rule: merge_lists.induct)
  case (3 lessf l ls r rs)
  have nl: "\<not> lessf l r"
    using "3.prems" by simp
  have "\<forall>x \<in> set (l # ls). \<forall>y \<in> set rs. \<not> lessf x y"
    using "3.prems" by simp
  from "3.IH"(2)[OF nl this] nl show ?case
    by simp
qed simp_all

subsection \<open>The recursion of ParallelSort\<close>

lemma ParallelSort_split:
  assumes big: "\<not> length data < 2" "\<not> (p \<le> 1 \<or> length data < 1000)"
    and l: "ParallelSort ssort (take (length data div 2) data) lessf (p sdiv 2) = Some l"
    and r: "ParallelSort ssort (drop (length data div 2) data) lessf (p sdiv 2) = Some r"
    and len: "length l = length data div 2"
  shows "ParallelSort ssort data lessf p = Some (merge_lists lessf l r)"
proof -
  have "ParallelSort ssort data lessf p = merge (l @ r) (length data div 2) lessf"
    using big l r by (subst ParallelSort.simps) (simp add: Let_def)
  also have "\<dots> = Some (merge_lists lessf l r)"
    using len by (simp add: merge_eq)
  finally show ?thesis .
qed

lemma ParallelSort_rule:
  assumes len: "\<forall>xs. length (ssort lessf xs) = length xs"
    and small: "\<And>data. length data < 2 \<Longrightarrow> P data data"
    and seq: "\<And>data. P data (ssort lessf data)"
    and par: "\<And>data l r. \<lbrakk>1000 \<le> length data; length l = length data div 2;
                length r = length data - length data div 2;
                P (take (length data div 2) data) l; P (drop (length data div 2) data) r\<rbrakk>
              \<Longrightarrow> P data (merge_lists lessf l r)"
  shows "\<exists>out. ParallelSort ssort data lessf p = Some out \<and> length out = length data \<and> P data out"
proof (induction "length data" arbitrary: data p rule: less_induct)
  case less
  show ?case
  proof (cases "length data < 2")
    case True
    then show ?thesis using small[OF True] by (subst ParallelSort.simps) simp
  next
    case nsmall: False
    show ?thesis
    proof (cases "p \<le> 1 \<or> length data < 1000")
      case True
      then have "ParallelSort ssort data lessf p = Some (ssort lessf data)"
        using nsmall by (subst ParallelSort.simps) (simp add: SortBy_def)
      then show ?thesis using len seq by simp
    next
      case False
      let ?mid = "length data div 2"
      have lt1: "length (take ?mid data) < length data" and lt2: "length (drop ?mid data) < length data"
        using nsmall by auto
      from less[OF lt1, of "p sdiv 2"] obtain l where
        l: "ParallelSort ssort (take ?mid data) lessf (p sdiv 2) = Some l"
        and ll: "length l = length (take ?mid data)" and pl: "P (take ?mid data) l"
        by blast
      from less[OF lt2, of "p sdiv 2"] obtain r where
        r: "ParallelSort ssort (drop ?mid data) lessf (p sdiv 2) = Some r"
        and lr: "length r = length (drop ?mid data)" and pr: "P (drop ?mid data) r"
        by blast
      have ll': "length l = ?mid" using ll by simp
      have lr': "length r = length data - ?mid" using lr by simp
      have big: "1000 \<le> length data" using False by simp
      have "ParallelSort ssort data lessf p = Some (merge_lists lessf l r)"
        using ParallelSort_split[OF nsmall False l r ll'] .
      moreover have "length (merge_lists lessf l r) = length data"
        using ll' lr' by (simp add: length_merge_lists)
      moreover have "P data (merge_lists lessf l r)"
        using par[OF big ll' lr' pl pr] .
      ultimately show ?thesis by simp
    qed
  qed
qed

lemma ParallelSort_total:
  assumes "\<forall>xs. length (ssort lessf xs) = length xs"
  shows "\<exists>out. ParallelSort ssort data lessf p = Some out \<and> length out = length data"
  using ParallelSort_rule[where ssort = ssort and lessf = lessf and P = "\<lambda>_ _. True", OF assms]
  by simp

lemma ParallelSort_permutes:
  assumes "\<forall>xs. mset (ssort lessf xs) = mset xs"
  shows "\<exists>out. ParallelSort ssort data lessf p = Some out \<and> mset out = mset data"
proof -
  have len: "\<forall>xs. length (ssort lessf xs) = length xs"
    using assms by (metis size_mset)
  have par: "mset (merge_lists lessf l r) = mset d"
    if "mset l = mset (take (length d div 2) d)" "mset r = mset (drop (length d div 2) d)"
    for d l r :: "'a list"
  proof -
    have "mset (merge_lists lessf l r) = mset (take (length d div 2) d) + mset (drop (length d div 2) d)"
      using that by (simp add: mset_merge_lists)
    also have "\<dots> = mset (take (length d div 2) d @ drop (length d div 2) d)"
      by (simp only: mset_append)
    finally show ?thesis by simp
  qed
  have "\<exists>out. ParallelSort ssort data lessf p = Some out \<and> length out = length data
          \<and> mset out = mset data"
  proof (rule ParallelSort_rule[where ssort = ssort and lessf = lessf
        and P = "\<lambda>d out. mset out = mset d", OF len])
    show "mset (ssort lessf d) = mset d" for d
      using assms by simp
    show "mset (merge_lists lessf l r) = mset d"
      if "mset l = mset (take (length d div 2) d)" "mset r = mset (drop (length d div 2) d)"
      for d l r :: "'a list"
      using par[OF that] .
  qed simp
  then show ?thesis by blast
qed

lemma ParallelSort_sorts:
  assumes swo: "strict_weak_order lessf"
    and len: "\<forall>xs. length (ssort lessf xs) = length xs"
    and srt: "\<forall>xs. sorted_wrt (\<lambda>a b. \<not> lessf b a) (ssort lessf xs)"
  shows "\<exists>out. ParallelSort ssort data lessf p = Some out \<and> sorted_wrt (\<lambda>a b. \<not> lessf b a) out"
proof -
  have small: "sorted_wrt (\<lambda>a b. \<not> lessf b a) d" if "length d < 2" for d :: "'a list"
  proof (cases d)
    case (Cons x xs)
    with that have "xs = []" by simp
    with Cons show ?thesis by simp
  qed simp
  have "\<exists>out. ParallelSort ssort data lessf p = Some out \<and> length out = length data
          \<and> sorted_wrt (\<lambda>a b. \<not> lessf b a) out"
  proof (rule ParallelSort_rule[where ssort = ssort and lessf = lessf
        and P = "\<lambda>d out. sorted_wrt (\<lambda>a b. \<not> lessf b a) out", OF len])
    show "sorted_wrt (\<lambda>a b. \<not> lessf b a) d" if "length d < 2" for d :: "'a list"
      using small[OF that] .
    show "sorted_wrt (\<lambda>a b. \<not> lessf b a) (ssort lessf d)" for d
      using srt by simp
    show "sorted_wrt (\<lambda>a b. \<not> lessf b a) (merge_lists lessf l r)"
      if "sorted_wrt (\<lambda>a b. \<not> lessf b a) l" "sorted_wrt (\<lambda>a b. \<not> lessf b a) r"
      for l r :: "'a list"
      using sorted_merge_lists[OF swo that] .
  qed
  then show ?thesis by blast
qed

subsection \<open>Halving the budget\<close>

lemma sdiv_2_pos: "1 < (p::int) \<Longrightarrow> p sdiv 2 = p div 2"
  by (simp add: signed_divide_int_def sgn_if)

lemma ParallelSort_depth_bound: "2 ^ ParallelSort_depth data p \<le> max 1 p"
proof (induction data p rule: ParallelSort_depth.induct)
  case (1 data p)
  show ?case
  proof (cases "length data < 2 \<or> p \<le> 1 \<or> length data < 1000")
    case True
    then show ?thesis by (subst ParallelSort_depth.simps) auto
  next
    case False
    let ?mid = "length data div 2"
    let ?a = "ParallelSort_depth (take ?mid data) (p sdiv 2)"
    let ?b = "ParallelSort_depth (drop ?mid data) (p sdiv 2)"
    from False have c1: "\<not> length data < 2" and c2: "\<not> (p \<le> 1 \<or> length data < 1000)"
      by auto
    have p2: "p sdiv 2 = p div 2" and pos: "1 \<le> p div 2"
      using False by (auto simp: sdiv_2_pos)
    have a: "2 ^ ?a \<le> p div 2"
      using "1.IH"(1)[OF c1 c2 refl] p2 pos by simp
    have b: "2 ^ ?b \<le> p div 2"
      using "1.IH"(2)[OF c1 c2 refl] p2 pos by simp
    have "ParallelSort_depth data p = 1 + max ?a ?b"
      using False by (subst ParallelSort_depth.simps) (simp add: Let_def)
    then have "(2::int) ^ ParallelSort_depth data p = 2 * 2 ^ max ?a ?b"
      by simp
    also have "\<dots> \<le> 2 * (p div 2)"
      using a b by (simp add: max_def)
    also have "\<dots> \<le> max 1 p"
      by simp
    finally show ?thesis .
  qed
qed

subsection \<open>Insertion sort and the concrete comparators\<close>

lemma mset_insert_sorted: "mset (insert_sorted lessf x xs) = add_mset x (mset xs)"
  by (induction xs) auto

lemma mset_insertionSort: "mset (insertionSort lessf xs) = mset xs"
  by (induction xs) (auto simp: mset_insert_sorted)

lemma length_insertionSort: "length (insertionSort lessf xs) = length xs"
  by (metis mset_insertionSort size_mset)

lemma set_insert_sorted: "set (insert_sorted lessf x xs) = insert x (set xs)"
  by (induction xs) auto

lemma sorted_insert_sorted:
  assumes swo: "strict_weak_order lessf"
  shows "sorted_wrt (\<lambda>a b. \<not> lessf b a) xs
    \<Longrightarrow> sorted_wrt (\<lambda>a b. \<not> lessf b a) (insert_sorted lessf x xs)"
proof (induction xs)
  case Nil
  then show ?case by simp
next
  case (Cons y ys)
  show ?case
  proof (cases "lessf y x")
    case True
    have "\<not> lessf x y" using swo_asym[OF swo True] .
    then show ?thesis
      using True Cons by (auto simp: set_insert_sorted)
  next
    case False
    have "\<not> lessf z x" if "z \<in> set ys" for z
    proof -
      have "\<not> lessf z y" using that Cons.prems by auto
      from swo_negtrans[OF swo this False] show ?thesis .
    qed
    then show ?thesis
      using False Cons.prems by auto
  qed
qed

lemma sorted_insertionSort:
  "strict_weak_order lessf \<Longrightarrow> sorted_wrt (\<lambda>a b. \<not> lessf b a) (insertionSort lessf xs)"
  by (induction xs) (auto simp: sorted_insert_sorted)

lemma IsSorted_insertionSort:
  "strict_weak_order lessf \<Longrightarrow> IsSorted (insertionSort lessf xs) lessf"
  by (simp add: IsSorted_sorted_wrt sorted_insertionSort)


lemma swo_less_nat: "strict_weak_order less_nat"
  by (auto simp: strict_weak_order_def less_nat_def)



subsection \<open>Sorted permutations under a comparator without ties\<close>



subsection \<open>A thousand records with one key\<close>

lemma length_same_key_1000: "length same_key_1000 = 1000"
  by (simp add: same_key_1000_def)

lemma same_key_1000_key: "x \<in> set same_key_1000 \<Longrightarrow> fst x = 0"
  by (auto simp: same_key_1000_def)








text \<open>
  With any library sort that permutes the slice, \<open>parallelism = 2\<close> puts an element of the
  high half at index 0 of the thousand records with one key.
\<close>

lemma same_key_1000_any_sort:
  assumes perm: "\<forall>xs. mset (ssort less_key xs) = mset xs"
  shows "\<exists>out. ParallelSort ssort same_key_1000 less_key 2 = Some out
           \<and> out ! 0 \<in> set (drop 500 same_key_1000) \<and> out \<noteq> same_key_1000"
proof -
  let ?l = "ssort less_key (take 500 same_key_1000)"
  let ?r = "ssort less_key (drop 500 same_key_1000)"
  have mid: "length same_key_1000 div 2 = 500"
    by (simp add: length_same_key_1000)
  have half: "(2::int) sdiv 2 = 1"
    by (simp add: sdiv_2_pos)
  have len: "length (ssort less_key xs) = length xs" for xs
    using perm by (metis size_mset)
  have sets: "set ?l = set (take 500 same_key_1000)" "set ?r = set (drop 500 same_key_1000)"
    using perm by (metis set_mset_mset)+
  have l: "ParallelSort ssort (take (length same_key_1000 div 2) same_key_1000) less_key (2 sdiv 2)
             = Some ?l"
    unfolding mid half
    by (subst ParallelSort.simps) (simp add: SortBy_def length_same_key_1000)
  have r: "ParallelSort ssort (drop (length same_key_1000 div 2) same_key_1000) less_key (2 sdiv 2)
             = Some ?r"
    unfolding mid half
    by (subst ParallelSort.simps) (simp add: SortBy_def length_same_key_1000)
  have ll: "length ?l = length same_key_1000 div 2"
    by (simp add: len length_same_key_1000)
  have ps: "ParallelSort ssort same_key_1000 less_key 2 = Some (merge_lists less_key ?l ?r)"
    by (rule ParallelSort_split[OF _ _ l r ll]) (simp_all add: length_same_key_1000)
  have ml: "merge_lists less_key ?l ?r = ?r @ ?l"
  proof (rule merge_lists_right_first, intro ballI)
    fix x y
    assume "x \<in> set ?l" and "y \<in> set ?r"
    then have "fst x = 0" and "fst y = 0"
      unfolding sets by (auto dest!: in_set_takeD in_set_dropD same_key_1000_key)
    then show "\<not> less_key x y"
      by (simp add: less_key_def)
  qed
  have "0 < length ?r"
    by (simp add: len length_same_key_1000)
  then have "(?r @ ?l) ! 0 \<in> set ?r"
    by (simp add: nth_append)
  then have first: "(?r @ ?l) ! 0 \<in> set (drop 500 same_key_1000)"
    unfolding sets .
  have "same_key_1000 ! 0 \<notin> set (drop 500 same_key_1000)"
    by (auto simp: same_key_1000_def drop_map)
  with first have "?r @ ?l \<noteq> same_key_1000"
    by metis
  with ps ml first show ?thesis
    by simp
qed

section \<open>Claims about merge and ParallelSort\<close>

text \<open>
  Claim C7.  For every comparator and every integer \<open>n\<close>, zero and negative ones too,
  \<open>ParallelSort\<close> applied to the empty (or nil) slice and to a slice of one element
  returns without a panic and leaves the slice as it was.
\<close>

theorem ParallelSort_empty_singleton:
  "ParallelSort ssort [] lessf n = Some [] \<and> ParallelSort ssort [x] lessf n = Some [x]"
  by (simp add: ParallelSort.simps)

text \<open>
  Claim C3 says that the merge puts the left front element into the output before the
  right one when neither is less than the other.  The loop of \<open>merge\<close> takes the left
  element only when \<open>less(left, right)\<close> holds: two records with the same key come out
  with the one of the high half first.
\<close>

theorem merge_tie_left_first_counterexample:
  "\<not> less_key (0, 1) (0, 2) \<and> \<not> less_key (0, 2) (0, 1) \<and>
   merge_step less_key [(0, 1), (0, 2)] [(0, 1), (0, 2)] 0 1 0 = Some ([(0, 2), (0, 2)], 0, 2, 1) \<and>
   merge [(0, 1), (0, 2)] 1 less_key = Some [(0, 2), (0, 1)]"
  by (simp add: less_key_def merge_def merge_loop.simps copy_left.simps merge_step_def
      slice_get_def slice_set_def)

text \<open>
  Claim C3, amended.  When the front elements \<open>temp[i]\<close> of the low half and \<open>temp[j]\<close> of the
  high half are such that neither is less than the other, the pass of the loop writes
  the right element \<open>temp[j]\<close> at the output index and advances the right cursor; the
  left element stays at the front of its half and is placed later.
\<close>

theorem merge_step_tie_right_first:
  assumes "i < length temp" and "j < length temp" and "k < length data"
    and "\<not> lessf (temp ! i) (temp ! j)" and "\<not> lessf (temp ! j) (temp ! i)"
  shows "merge_step lessf temp data i j k = Some (data[k := temp ! j], i, j + 1, k + 1)"
  using assms by (simp add: merge_step_def slice_get_def slice_set_def)

theorem merge_step_tie_right_first_witness:
  "\<not> less_key (0, 1) (0, 2) \<and> \<not> less_key (0, 2) (0, 1) \<and>
   merge_step less_key [(0, 1), (0, 2)] [(0, 1), (0, 2)] 0 1 0 = Some ([(0, 2), (0, 2)], 0, 2, 1)"
  using merge_step_tie_right_first[of 0 "[(0, 1), (0, 2)]" 1 0 "[(0, 1), (0, 2)]" less_key]
  by (simp add: less_key_def)

text \<open>
  Claim C9.  For every \<open>mid\<close> with \<open>0 \<le> mid \<le> len(data)\<close> and every comparator, \<open>merge\<close>
  leaves in \<open>data\<close> exactly what the reference merge leaves, which also copies the rest
  of the high half.  When the first loop ends with the low half used up, the output
  index is the right cursor and the slice from there on already holds the rest of the
  high half; otherwise the high half is used up.
\<close>

theorem merge_agrees_with_reference:
  assumes "mid \<le> length data"
  shows "merge data mid lessf = merge_ref data mid lessf \<and>
         (\<exists>d i j k. merge_loop lessf data mid data 0 mid 0 = Some (d, i, j, k) \<and>
            ((i = mid \<and> k = j \<and> drop k d = drop j data) \<or> (i < mid \<and> j = length data)))"
proof -
  have "merge_inv data mid data 0 mid 0"
    using assms by (simp add: merge_inv_def)
  from merge_loop_spec[OF this, of lessf]
  obtain d i j k where
    lp: "merge_loop lessf data mid data 0 mid 0 = Some (d, i, j, k)"
    and inv: "merge_inv data mid d i j k" and ex: "i = mid \<or> j = length data"
    by auto
  have "(i = mid \<and> k = j \<and> drop k d = drop j data) \<or> (i < mid \<and> j = length data)"
    using inv ex by (auto simp: merge_inv_def)
  with lp show ?thesis
    using assms by (simp add: merge_eq merge_ref_eq)
qed

theorem merge_agrees_with_reference_witness:
  "merge [1, 3, 2, 4] 2 less_nat = merge_ref [1, 3, 2, 4] 2 less_nat \<and>
   merge [1, 3, 2, 4] 2 less_nat = Some [1, 2, 3, 4]"
  using merge_agrees_with_reference[of 2 "[1, 3, 2, 4]" less_nat]
  by (simp add: merge_eq less_nat_def)

text \<open>
  Claim C1.  For every finite slice and every consistent comparator (a strict weak
  ordering), \<open>ParallelSort\<close> returns and leaves the slice sorted: for every adjacent pair
  of positions \<open>i\<close>, \<open>less(data[i+1], data[i])\<close> is false, which is what \<open>IsSorted\<close> of the
  package checks (lemma \<open>IsSorted_adjacent\<close>).  The library sort that \<open>SortBy\<close> calls is taken to sort in place: it
  leaves a permutation of the slice that is sorted by the comparator.
\<close>

theorem ParallelSort_output_IsSorted:
  assumes "strict_weak_order lessf"
    and "\<forall>xs. mset (ssort lessf xs) = mset xs \<and> IsSorted (ssort lessf xs) lessf"
  shows "\<exists>out. ParallelSort ssort data lessf parallelism = Some out \<and> IsSorted out lessf"
proof -
  have len: "\<forall>xs. length (ssort lessf xs) = length xs"
    using assms(2) by (metis size_mset)
  have srt: "\<forall>xs. sorted_wrt (\<lambda>a b. \<not> lessf b a) (ssort lessf xs)"
    using assms by (simp add: IsSorted_sorted_wrt)
  from ParallelSort_sorts[where ssort = ssort and lessf = lessf, OF assms(1) len srt]
  show ?thesis using assms(1) by (simp add: IsSorted_sorted_wrt)
qed

theorem ParallelSort_output_IsSorted_witness:
  "\<exists>out. ParallelSort insertionSort (rev [0..<1500]) less_nat 4 = Some out \<and> IsSorted out less_nat"
  using ParallelSort_output_IsSorted[where lessf = less_nat and ssort = insertionSort
      and data = "rev [0..<1500]" and parallelism = 4]
  by (simp add: swo_less_nat mset_insertionSort IsSorted_insertionSort)

text \<open>
  Claim C2.  For every slice, comparator and parallelism, the multiset of the elements
  after \<open>ParallelSort\<close> is the multiset before: nothing is added, lost or duplicated.
  The library sort that \<open>SortBy\<close> calls is taken to permute the slice.
\<close>

theorem ParallelSort_permutation:
  assumes "\<forall>xs. mset (ssort lessf xs) = mset xs"
  shows "\<exists>out. ParallelSort ssort data lessf parallelism = Some out \<and> mset out = mset data"
  using ParallelSort_permutes[where ssort = ssort and lessf = lessf, OF assms] .

theorem ParallelSort_permutation_witness:
  "\<exists>out. ParallelSort insertionSort (rev [0..<1500]) less_always 4 = Some out
     \<and> mset out = mset (rev [0..<1500])"
  using ParallelSort_permutation[where ssort = insertionSort and lessf = less_always
      and data = "rev [0..<1500]" and parallelism = 4]
  by (simp add: mset_insertionSort)

text \<open>
  Claim C6.  For every comparator, consistent or not, \<open>merge\<close> and \<open>ParallelSort\<close> never
  read or write outside the slice and always return: the first loop of \<open>merge\<close> ends with
  both cursors and the output index inside their bounds, \<open>merge\<close> returns a slice of the
  same length, and so does \<open>ParallelSort\<close>.  (A read or write out of range is the value
  \<open>None\<close>; the loops are total functions.)  The library sort works in place, so it
  keeps the length of the slice.
\<close>

theorem merge_ParallelSort_safe:
  assumes "\<forall>xs. length (ssort lessf xs) = length xs"
  shows "(mid \<le> length data \<longrightarrow>
            (\<exists>d i j k. merge_loop lessf data mid data 0 mid 0 = Some (d, i, j, k)
               \<and> i \<le> mid \<and> mid \<le> j \<and> j \<le> length data \<and> k \<le> length data)
          \<and> (\<exists>out. merge data mid lessf = Some out \<and> length out = length data))
       \<and> (\<exists>out. ParallelSort ssort data lessf parallelism = Some out \<and> length out = length data)"
proof (intro conjI impI)
  assume mid: "mid \<le> length data"
  then have "merge_inv data mid data 0 mid 0"
    by (simp add: merge_inv_def)
  from merge_loop_spec[OF this, of lessf]
  obtain d i j k where "merge_loop lessf data mid data 0 mid 0 = Some (d, i, j, k)"
    and "merge_inv data mid d i j k"
    by blast
  then show "\<exists>d i j k. merge_loop lessf data mid data 0 mid 0 = Some (d, i, j, k)
               \<and> i \<le> mid \<and> mid \<le> j \<and> j \<le> length data \<and> k \<le> length data"
    by (auto simp: merge_inv_def)
  show "\<exists>out. merge data mid lessf = Some out \<and> length out = length data"
    using mid by (simp add: merge_eq length_merge_lists)
next
  show "\<exists>out. ParallelSort ssort data lessf parallelism = Some out \<and> length out = length data"
    using ParallelSort_total[where ssort = ssort and lessf = lessf, OF assms] .
qed

theorem merge_ParallelSort_safe_witness:
  "((\<exists>d i j k. merge_loop less_always (rev [0..<1500]) 750 (rev [0..<1500]) 0 750 0
          = Some (d, i, j, k)
        \<and> i \<le> 750 \<and> 750 \<le> j \<and> j \<le> length (rev [0..<1500]) \<and> k \<le> length (rev [0..<1500]))
     \<and> (\<exists>out. merge (rev [0..<1500]) 750 less_always = Some out
           \<and> length out = length (rev [0..<1500])))
   \<and> (\<exists>out. ParallelSort insertionSort (rev [0..<1500]) less_always 4 = Some out
         \<and> length out = length (rev [0..<1500]))"
  using merge_ParallelSort_safe[where ssort = insertionSort and lessf = less_always
      and mid = 750 and data = "rev [0..<1500]" and parallelism = 4]
  by (simp add: length_insertionSort)

text \<open>
  Claim C8.  \<open>ParallelSort\<close> terminates on every input.  At a split (the slice has at
  least 1000 elements and the budget is above 1) the budget passed on, \<open>parallelism/2\<close>,
  is strictly smaller, and both halves are strictly shorter than the slice; the depth
  of nested splits is at most the binary logarithm of the budget.  The recursion is
  well-founded by the length of the slice, which is how \<open>ParallelSort\<close> is defined here.
\<close>

theorem ParallelSort_terminates:
  assumes "\<forall>xs. length (ssort lessf xs) = length xs"
  shows "(\<exists>out. ParallelSort ssort data lessf parallelism = Some out)
       \<and> 2 ^ ParallelSort_depth data parallelism \<le> max 1 parallelism
       \<and> (\<not> length data < 2 \<and> \<not> (parallelism \<le> 1 \<or> length data < 1000) \<longrightarrow>
            parallelism sdiv 2 < parallelism
          \<and> length (take (length data div 2) data) < length data
          \<and> length (drop (length data div 2) data) < length data)"
proof (intro conjI impI)
  show "\<exists>out. ParallelSort ssort data lessf parallelism = Some out"
    using ParallelSort_total[where ssort = ssort and lessf = lessf, OF assms] by blast
  show "2 ^ ParallelSort_depth data parallelism \<le> max 1 parallelism"
    by (rule ParallelSort_depth_bound)
next
  assume h: "\<not> length data < 2 \<and> \<not> (parallelism \<le> 1 \<or> length data < 1000)"
  then have "1 < parallelism"
    by simp
  then show "parallelism sdiv 2 < parallelism"
    by (simp add: sdiv_2_pos)
  from h have "2 \<le> length data"
    by simp
  then show "length (take (length data div 2) data) < length data"
    and "length (drop (length data div 2) data) < length data"
    by simp_all
qed

theorem ParallelSort_terminates_witness:
  "(\<exists>out. ParallelSort insertionSort (rev [0..<1500]) less_nat 4 = Some out)
   \<and> 2 ^ ParallelSort_depth (rev [0..<1500]) 4 \<le> max 1 (4::int)
   \<and> (4::int) sdiv 2 < 4
   \<and> length (take (length (rev [0..<1500]) div 2) (rev [0..<1500])) < length (rev [0..<1500])
   \<and> length (drop (length (rev [0..<1500]) div 2) (rev [0..<1500])) < length (rev [0..<1500])"
  using ParallelSort_terminates[where ssort = insertionSort and lessf = less_nat
      and data = "rev [0..<1500]" and parallelism = 4]
  by (simp add: length_insertionSort)







end
